theory Spec2Isabelle
  imports Main
begin

section \<open>The debounce hook of the auto-save form\<close>

text \<open>
  The development follows \<^verbatim>\<open>src/app/projects/hooks/useDebounce.ts\<close>:
  \<^verbatim>\<open>
  const useDebounce = (callback: () => void, delay: number = 1000) => {
    const ref = useRef<any>()
    useEffect(() => { ref.current = callback }, [callback])
    const debouncedCallback = useMemo(() => {
      const func = () => { ref.current?.() }
      return debounce(func, delay)
    }, [delay])
    return debouncedCallback
  }
  \<close>
  The hook lives inside one component instance. Its state (the ref cell, the dependencies
  remembered by \<^verbatim>\<open>useEffect\<close> and \<^verbatim>\<open>useMemo\<close>, the timers of the JavaScript
  runtime) is threaded explicitly through every operation. Time is a virtual clock counting
  milliseconds; a delay is a natural number of milliseconds.
\<close>

subsection \<open>Data\<close>

text \<open>
  A callback of type \<^verbatim>\<open>() => void\<close>. The hook never looks inside it: it is identified by
  a name, and calling it either returns or throws.
\<close>

datatype 'a callback = Callback (name: 'a) (throws: bool)

datatype outcome = Returned | Threw

text \<open>
  Modelled from the spec: \<^verbatim>\<open>debounce\<close> is imported from \<^verbatim>\<open>lodash/debounce\<close>, which is
  not among the sources. Section 4.1 describes the scheduler it returns: it owns at most one
  timer; a notification cancels the pending timer, if any, and starts a new one for the
  configured delay; when the timer elapses the timer is cleared and the wrapped function is
  invoked once. A debounced function is a value carrying its identity and the wait it was
  created with; its timer lives in the timer queue of the runtime, under that identity.
\<close>

datatype debounced = Debounced (ident: nat) (wait: nat)

datatype status = Idle | Pending

record 'a hook =
  now :: nat
  ref :: "'a callback option"
  effectDeps :: "'a callback option"
  pendingEffect :: "'a callback option"
  memo :: "(nat \<times> debounced) option"
  created :: nat
  timerQueue :: "(nat \<times> nat) list"
  calls :: "(nat \<times> 'a callback) list"
  uncaught :: "nat list"

text \<open>
  \<^item> \<open>now\<close>: the clock;
  \<^item> \<open>ref\<close>: \<^verbatim>\<open>ref.current\<close>, \<open>None\<close> while it is still \<^verbatim>\<open>undefined\<close>;
  \<^item> \<open>effectDeps\<close>: the dependency \<^verbatim>\<open>[callback]\<close> of the previous render, \<open>None\<close> before
    the first render;
  \<^item> \<open>pendingEffect\<close>: the effect registered by a render and not run yet, given by the
    callback it will store;
  \<^item> \<open>memo\<close>: the cache of \<^verbatim>\<open>useMemo\<close>: the dependency \<^verbatim>\<open>[delay]\<close> and the debounced
    function made for it;
  \<^item> \<open>created\<close>: how many debounced functions have been made (the next fresh identity);
  \<^item> \<open>timerQueue\<close>: the pending timers, each the identity of its owner and its due time, in
    the order they were set;
  \<^item> \<open>calls\<close>: the invocations of bound callbacks so far, each with its time;
  \<^item> \<open>uncaught\<close>: the times at which an exception left a timer callback.
\<close>

definition init :: "'a hook" where
  "init = \<lparr>now = 0, ref = None, effectDeps = None, pendingEffect = None, memo = None,
     created = 0, timerQueue = [], calls = [], uncaught = []\<rparr>"

subsection \<open>The hook\<close>

text \<open>The default value of the parameter \<^verbatim>\<open>delay: number = 1000\<close>.\<close>

definition delayOf :: "nat option \<Rightarrow> nat" where
  "delayOf dopt = (case dopt of None \<Rightarrow> 1000 | Some d \<Rightarrow> d)"

text \<open>
  \<^verbatim>\<open>useEffect(() => { ref.current = callback }, [callback])\<close>: on the first render, and
  whenever the callback differs from the one of the previous render, the effect is
  registered; it runs after the render, in \<open>flushEffects\<close>.
\<close>

definition useEffect :: "'a callback \<Rightarrow> 'a hook \<Rightarrow> 'a hook" where
  "useEffect callback w =
     (if effectDeps w = Some callback then w
      else w\<lparr>effectDeps := Some callback, pendingEffect := Some callback\<rparr>)"

definition flushEffects :: "'a hook \<Rightarrow> 'a hook" where
  "flushEffects w =
     (case pendingEffect w of
        None \<Rightarrow> w
      | Some callback \<Rightarrow> w\<lparr>ref := Some callback, pendingEffect := None\<rparr>)"

text \<open>
  Modelled from the spec: \<^verbatim>\<open>debounce(func, delay)\<close> of lodash, absent from the sources,
  makes a fresh scheduler for the given delay, with no timer.
\<close>

definition debounce :: "nat \<Rightarrow> 'a hook \<Rightarrow> debounced \<times> 'a hook" where
  "debounce delay w = (Debounced (created w) delay, w\<lparr>created := Suc (created w)\<rparr>)"

text \<open>
  \<^verbatim>\<open>useMemo(() => debounce(func, delay), [delay])\<close>: the debounced function is made on the
  first render and made anew whenever the delay differs from the one of the previous render.
  The function made before is dropped from the cache; nothing is done to its timer.
\<close>

definition useMemo :: "nat \<Rightarrow> 'a hook \<Rightarrow> debounced \<times> 'a hook" where
  "useMemo delay w =
     (let fresh = (case debounce delay w of (f, w') \<Rightarrow> (f, w'\<lparr>memo := Some (delay, f)\<rparr>))
      in case memo w of
           None \<Rightarrow> fresh
         | Some (d, f) \<Rightarrow> if d = delay then (f, w) else fresh)"

definition useDebounce :: "'a callback \<Rightarrow> nat option \<Rightarrow> 'a hook \<Rightarrow> debounced \<times> 'a hook" where
  "useDebounce callback dopt w = useMemo (delayOf dopt) (useEffect callback w)"

text \<open>
  \<^verbatim>\<open>const func = () => { ref.current?.() }\<close>, called at time \<open>t\<close>: nothing happens while
  the ref is empty; otherwise the callback held by the ref at this moment is called, and its
  exception, if it throws, is the exception of \<open>func\<close>.
\<close>

definition func :: "nat \<Rightarrow> 'a hook \<Rightarrow> outcome \<times> 'a hook" where
  "func t w =
     (case ref w of
        None \<Rightarrow> (Returned, w)
      | Some callback \<Rightarrow>
          (if throws callback then Threw else Returned, w\<lparr>calls := calls w @ [(t, callback)]\<rparr>))"

subsection \<open>The scheduler and the timers\<close>

text \<open>
  Modelled from the spec: calling the debounced function (\<^verbatim>\<open>notify()\<close> in section 4.1)
  cancels the pending timer of this scheduler, if one exists, and starts a new timer for its
  delay. Nothing is invoked.
\<close>

definition debouncedCall :: "debounced \<Rightarrow> 'a hook \<Rightarrow> 'a hook" where
  "debouncedCall f w =
     w\<lparr>timerQueue := filter (\<lambda>q. fst q \<noteq> ident f) (timerQueue w) @ [(ident f, now w + wait f)]\<rparr>"

text \<open>
  Modelled from the spec: the expiry of a timer at time \<open>t\<close> (section 4.1, state machine).
  The timer is consumed and the wrapped function \<open>func\<close> is invoked once. The scheduler has
  no handler around the invocation, so an exception of \<open>func\<close> leaves the timer callback and
  is recorded by the runtime as uncaught.
\<close>

definition timerExpired :: "nat \<times> nat \<Rightarrow> 'a hook \<Rightarrow> 'a hook" where
  "timerExpired q w =
     (case func (snd q) (w\<lparr>timerQueue := filter (\<lambda>q'. fst q' \<noteq> fst q) (timerQueue w)\<rparr>) of
        (Returned, w') \<Rightarrow> w'
      | (Threw, w') \<Rightarrow> w'\<lparr>uncaught := uncaught w' @ [snd q]\<rparr>)"

text \<open>
  Modelled from the spec: the timer facility of the event loop (section 5: single-threaded,
  event-driven, the only suspension point is the delay of the timer), which is the runtime
  and not part of the sources. When \<open>n\<close> milliseconds pass, the timers due by then fire, each
  at its due time, in the order of their due times, timers due at the same time in the order
  they were set. An invocation made by a timer is recorded with the due time of the timer.
\<close>

definition dueTimers :: "nat \<Rightarrow> 'a hook \<Rightarrow> (nat \<times> nat) list" where
  "dueTimers limit w = sort_key snd (filter (\<lambda>q. snd q \<le> limit) (timerQueue w))"

definition advance :: "nat \<Rightarrow> 'a hook \<Rightarrow> 'a hook" where
  "advance n w = (fold timerExpired (dueTimers (now w + n) w) w)\<lparr>now := now w + n\<rparr>"

text \<open>
  Modelled from the spec: the two states of the scheduler (section 4.1): pending while it owns
  a timer, idle otherwise.
\<close>

definition statusOf :: "debounced \<Rightarrow> 'a hook \<Rightarrow> status" where
  "statusOf f w = (if ident f \<in> set (map fst (timerQueue w)) then Pending else Idle)"

subsection \<open>Events of a component\<close>

text \<open>
  What happens to the component that uses the hook: it renders, calling
  \<^verbatim>\<open>useDebounce(callback, delay)\<close> with a callback and an optional delay (React runs the
  effects still pending from the previous render first); the effects of the last render run;
  the debounced function returned by the last render is called (\<^verbatim>\<open>notify()\<close>; before the
  first render there is none to call); or time passes.
\<close>

datatype 'a event = Render "'a callback" "nat option" | Effects | Notify | Advance nat

fun step :: "'a event \<Rightarrow> 'a hook \<Rightarrow> 'a hook" where
  "step (Render callback dopt) w = snd (useDebounce callback dopt (flushEffects w))"
| "step Effects w = flushEffects w"
| "step Notify w = (case memo w of None \<Rightarrow> w | Some (d, f) \<Rightarrow> debouncedCall f w)"
| "step (Advance n) w = advance n w"

definition run :: "'a event list \<Rightarrow> 'a hook \<Rightarrow> 'a hook" where
  "run evs w = fold step evs w"

text \<open>\<^verbatim>\<open>bind(action)\<close> of the specification: a render with the action, and its effect.\<close>

definition bind :: "'a callback \<Rightarrow> nat option \<Rightarrow> 'a event list" where
  "bind callback dopt = [Render callback dopt, Effects]"

subsection \<open>Vocabulary for event sequences\<close>

text \<open>A render that omits the delay, rewritten with the delay written out.\<close>

fun explicitDelay :: "'a event \<Rightarrow> 'a event" where
  "explicitDelay (Render callback None) = Render callback (Some 1000)"
| "explicitDelay e = e"

text \<open>The events that make up a \<^verbatim>\<open>bind\<close>: a render or the run of its effect.\<close>

fun isBind :: "'a event \<Rightarrow> bool" where
  "isBind (Render callback dopt) = True"
| "isBind Effects = True"
| "isBind e = False"

fun isNotify :: "'a event \<Rightarrow> bool" where
  "isNotify Notify = True"
| "isNotify e = False"

fun isAdvance :: "'a event \<Rightarrow> bool" where
  "isAdvance (Advance n) = True"
| "isAdvance e = False"

text \<open>A render keeps the delay \<open>d\<close> when it passes that delay; other events change no delay.\<close>

fun keepsDelay :: "nat \<Rightarrow> 'a event \<Rightarrow> bool" where
  "keepsDelay d (Render callback dopt) = (delayOf dopt = d)"
| "keepsDelay d e = True"

text \<open>A render whose delay is at least \<open>k\<close>.\<close>

fun delayAtLeast :: "nat \<Rightarrow> 'a event \<Rightarrow> bool" where
  "delayAtLeast k (Render callback dopt) = (k \<le> delayOf dopt)"
| "delayAtLeast k e = True"

text \<open>
  The clock times at which the notifications of an event sequence happen, when the sequence
  starts at time \<open>t\<close>, and the time the whole sequence takes.
\<close>

fun notifyTimes :: "nat \<Rightarrow> 'a event list \<Rightarrow> nat list" where
  "notifyTimes t [] = []"
| "notifyTimes t (Notify # evs) = t # notifyTimes t evs"
| "notifyTimes t (Advance n # evs) = notifyTimes (t + n) evs"
| "notifyTimes t (e # evs) = notifyTimes t evs"

fun duration :: "'a event list \<Rightarrow> nat" where
  "duration [] = 0"
| "duration (Advance n # evs) = n + duration evs"
| "duration (e # evs) = duration evs"

subsection \<open>Invariants\<close>

text \<open>
  What holds in every state the component can reach: the cached debounced function was made
  for the cached delay, every identity in use has been handed out, and the ref holds the
  callback of the last render unless the effect of that render is still to run.
\<close>

definition wellFormed :: "'a hook \<Rightarrow> bool" where
  "wellFormed w \<longleftrightarrow>
     (case memo w of None \<Rightarrow> True | Some (d, f) \<Rightarrow> wait f = d \<and> ident f < created w)
     \<and> (\<forall>q\<in>set (timerQueue w). fst q < created w)
     \<and> (case pendingEffect w of None \<Rightarrow> ref w = effectDeps w | Some c \<Rightarrow> effectDeps w = Some c)"

text \<open>
  Every pending timer and every recorded invocation lies at least \<open>k\<close> after one of the
  notification times in \<open>N\<close>, and the current debounced function waits at least \<open>k\<close>.
\<close>

definition notifiedBefore :: "nat \<Rightarrow> nat set \<Rightarrow> 'a hook \<Rightarrow> bool" where
  "notifiedBefore k N w \<longleftrightarrow>
     (case memo w of None \<Rightarrow> True | Some (d, f) \<Rightarrow> k \<le> wait f)
     \<and> (\<forall>q\<in>set (timerQueue w). \<exists>tn\<in>N. tn + k \<le> snd q)
     \<and> (\<forall>x\<in>set (calls w). \<exists>tn\<in>N. tn + k \<le> fst x)"

section \<open>Basic facts about the operations\<close>

lemmas model_defs = run_def bind_def init_def useDebounce_def useMemo_def useEffect_def
  flushEffects_def debounce_def delayOf_def debouncedCall_def advance_def dueTimers_def
  timerExpired_def func_def statusOf_def

lemma run_Nil [simp]: "run [] w = w"
  by (simp add: run_def)

lemma run_Cons [simp]: "run (e # evs) w = run evs (step e w)"
  by (simp add: run_def)

lemma run_append [simp]: "run (xs @ ys) w = run ys (run xs w)"
  by (simp add: run_def)

lemma flushEffects_fields [simp]:
  "now (flushEffects w) = now w"
  "memo (flushEffects w) = memo w"
  "created (flushEffects w) = created w"
  "timerQueue (flushEffects w) = timerQueue w"
  "calls (flushEffects w) = calls w"
  "uncaught (flushEffects w) = uncaught w"
  "effectDeps (flushEffects w) = effectDeps w"
  by (simp_all add: flushEffects_def split: option.split)

lemma useEffect_fields [simp]:
  "now (useEffect c w) = now w"
  "ref (useEffect c w) = ref w"
  "memo (useEffect c w) = memo w"
  "created (useEffect c w) = created w"
  "timerQueue (useEffect c w) = timerQueue w"
  "calls (useEffect c w) = calls w"
  "uncaught (useEffect c w) = uncaught w"
  by (simp_all add: useEffect_def)

lemma useMemo_fields [simp]:
  "now (snd (useMemo d w)) = now w"
  "ref (snd (useMemo d w)) = ref w"
  "effectDeps (snd (useMemo d w)) = effectDeps w"
  "pendingEffect (snd (useMemo d w)) = pendingEffect w"
  "timerQueue (snd (useMemo d w)) = timerQueue w"
  "calls (snd (useMemo d w)) = calls w"
  "uncaught (snd (useMemo d w)) = uncaught w"
  by (simp_all add: useMemo_def debounce_def Let_def split: option.split prod.split)

lemma useDebounce_fields [simp]:
  "now (snd (useDebounce c dopt w)) = now w"
  "ref (snd (useDebounce c dopt w)) = ref w"
  "timerQueue (snd (useDebounce c dopt w)) = timerQueue w"
  "calls (snd (useDebounce c dopt w)) = calls w"
  "uncaught (snd (useDebounce c dopt w)) = uncaught w"
  by (simp_all add: useDebounce_def)

lemma debouncedCall_fields [simp]:
  "now (debouncedCall f w) = now w"
  "ref (debouncedCall f w) = ref w"
  "effectDeps (debouncedCall f w) = effectDeps w"
  "pendingEffect (debouncedCall f w) = pendingEffect w"
  "memo (debouncedCall f w) = memo w"
  "created (debouncedCall f w) = created w"
  "calls (debouncedCall f w) = calls w"
  "uncaught (debouncedCall f w) = uncaught w"
  by (simp_all add: debouncedCall_def)

lemma timerExpired_fields [simp]:
  "now (timerExpired q w) = now w"
  "ref (timerExpired q w) = ref w"
  "effectDeps (timerExpired q w) = effectDeps w"
  "pendingEffect (timerExpired q w) = pendingEffect w"
  "memo (timerExpired q w) = memo w"
  "created (timerExpired q w) = created w"
  "timerQueue (timerExpired q w) = filter (\<lambda>q'. fst q' \<noteq> fst q) (timerQueue w)"
  by (simp_all add: timerExpired_def func_def split: option.split)

lemma timerExpired_calls:
  "calls (timerExpired q w) =
     calls w @ (case ref w of None \<Rightarrow> [] | Some c \<Rightarrow> [(snd q, c)])"
  by (simp add: timerExpired_def func_def split: option.split)

lemma timerExpired_uncaught:
  "uncaught (timerExpired q w) =
     uncaught w @ (case ref w of None \<Rightarrow> [] | Some c \<Rightarrow> if throws c then [snd q] else [])"
  by (simp add: timerExpired_def func_def split: option.split)

lemma fold_timerExpired_fields [simp]:
  "now (fold timerExpired qs w) = now w"
  "ref (fold timerExpired qs w) = ref w"
  "effectDeps (fold timerExpired qs w) = effectDeps w"
  "pendingEffect (fold timerExpired qs w) = pendingEffect w"
  "memo (fold timerExpired qs w) = memo w"
  "created (fold timerExpired qs w) = created w"
  by (induction qs arbitrary: w; simp)+

lemma fold_timerExpired_queue:
  "timerQueue (fold timerExpired qs w) =
     filter (\<lambda>q'. fst q' \<notin> fst ` set qs) (timerQueue w)"
  by (induction qs arbitrary: w) (auto intro: filter_cong)

lemma fold_timerExpired_calls:
  "calls (fold timerExpired qs w) =
     calls w @ (case ref w of None \<Rightarrow> [] | Some c \<Rightarrow> map (\<lambda>q. (snd q, c)) qs)"
  by (induction qs arbitrary: w) (auto simp: timerExpired_calls split: option.split)

lemma fold_timerExpired_uncaught:
  "uncaught (fold timerExpired qs w) =
     uncaught w @ (case ref w of None \<Rightarrow> [] | Some c \<Rightarrow> if throws c then map snd qs else [])"
  by (induction qs arbitrary: w) (auto simp: timerExpired_uncaught split: option.split)

lemma advance_fields [simp]:
  "now (advance n w) = now w + n"
  "ref (advance n w) = ref w"
  "effectDeps (advance n w) = effectDeps w"
  "pendingEffect (advance n w) = pendingEffect w"
  "memo (advance n w) = memo w"
  "created (advance n w) = created w"
  by (simp_all add: advance_def)

lemma advance_calls:
  "calls (advance n w) =
     calls w @ (case ref w of None \<Rightarrow> []
                | Some c \<Rightarrow> map (\<lambda>q. (snd q, c)) (dueTimers (now w + n) w))"
  by (simp add: advance_def fold_timerExpired_calls)

lemma advance_uncaught:
  "uncaught (advance n w) =
     uncaught w @ (case ref w of None \<Rightarrow> []
                   | Some c \<Rightarrow> if throws c then map snd (dueTimers (now w + n) w) else [])"
  by (simp add: advance_def fold_timerExpired_uncaught)

lemma advance_queue:
  "timerQueue (advance n w) =
     filter (\<lambda>q'. fst q' \<notin> fst ` set (dueTimers (now w + n) w)) (timerQueue w)"
  by (simp add: advance_def fold_timerExpired_queue)

section \<open>Binding without notifying\<close>

lemma dueTimers_empty [simp]: "timerQueue w = [] \<Longrightarrow> dueTimers limit w = []"
  by (simp add: dueTimers_def)

lemma step_Notify_calls [simp]: "calls (step Notify w) = calls w"
  by (simp split: option.split)

lemma step_bind_fields:
  assumes "isBind e"
  shows "timerQueue (step e w) = timerQueue w" "calls (step e w) = calls w"
    "uncaught (step e w) = uncaught w" "now (step e w) = now w"
  using assms by (cases e; simp)+

lemma run_binds:
  "\<forall>e\<in>set evs. isBind e \<Longrightarrow>
     timerQueue (run evs w) = timerQueue w \<and> calls (run evs w) = calls w
     \<and> uncaught (run evs w) = uncaught w \<and> now (run evs w) = now w"
  by (induction evs arbitrary: w) (simp_all add: step_bind_fields)

lemma step_no_notify:
  assumes "\<not> isNotify e" "timerQueue w = []"
  shows "timerQueue (step e w) = []" "calls (step e w) = calls w"
  using assms by (cases e; simp add: advance_queue advance_calls split: option.split)+

lemma run_no_notify:
  "\<forall>e\<in>set evs. \<not> isNotify e \<Longrightarrow> timerQueue w = [] \<Longrightarrow>
     timerQueue (run evs w) = [] \<and> calls (run evs w) = calls w"
  by (induction evs arbitrary: w) (simp_all add: step_no_notify)

text \<open>
  Claim C3. A sequence made of binds only (renders and the runs of their effects), from any
  state, leaves the timer queue as it was (no timer is armed, cancelled or added) and invokes
  nothing. From a state with no pending timer, a sequence without any notification invokes
  nothing however much time passes.
\<close>

theorem bind_alone_never_invokes:
  "((\<forall>e\<in>set evs. isBind e) \<longrightarrow>
      timerQueue (run evs w) = timerQueue w \<and> calls (run evs w) = calls w)
   \<and> ((\<forall>e\<in>set evs. \<not> isNotify e) \<and> timerQueue w = [] \<longrightarrow>
      timerQueue (run evs w) = [] \<and> calls (run evs w) = calls w)"
  using run_binds [of evs w] run_no_notify [of evs w] by blast

theorem bind_alone_never_invokes_witness:
  "list_all isBind (bind (Callback ''A'' False) None @ bind (Callback ''B'' False) (Some 500))
   \<and> timerQueue (run (bind (Callback ''A'' False) None @ bind (Callback ''B'' False) (Some 500))
        (run (bind (Callback ''A'' False) None @ [Notify]) init)) = [(0, 1000)]
   \<and> calls (run (bind (Callback ''A'' False) None @ bind (Callback ''B'' False) (Some 500))
        (run (bind (Callback ''A'' False) None @ [Notify]) init)) = []
   \<and> list_all (\<lambda>e. \<not> isNotify e)
        [Render (Callback ''A'' False) None, Effects, Advance 5000,
         Render (Callback ''B'' False) (Some 500), Effects, Advance 5000]
   \<and> timerQueue (init :: string hook) = []
   \<and> calls (run [Render (Callback ''A'' False) None, Effects, Advance 5000,
                  Render (Callback ''B'' False) (Some 500), Effects, Advance 5000] init) = []"
proof -
  let ?bs = "bind (Callback ''A'' False) None @ bind (Callback ''B'' False) (Some 500)"
  let ?w = "run (bind (Callback ''A'' False) None @ [Notify]) (init :: string hook)"
  let ?es = "[Render (Callback ''A'' False) None, Effects, Advance 5000,
              Render (Callback ''B'' False) (Some 500), Effects, Advance 5000]"
  have b: "list_all isBind ?bs" by (simp add: bind_def)
  have q: "timerQueue ?w = [(0, 1000)]" "calls ?w = []" by (simp_all add: model_defs)
  have n: "list_all (\<lambda>e. \<not> isNotify e) ?es" by simp
  have i: "timerQueue (init :: string hook) = []" "calls (init :: string hook) = []"
    by (simp_all add: init_def)
  from bind_alone_never_invokes [of ?bs ?w] b q
  have 1: "timerQueue (run ?bs ?w) = [(0, 1000)]" "calls (run ?bs ?w) = []"
    by (simp_all add: list_all_iff)
  from bind_alone_never_invokes [of ?es init] n i
  have 2: "calls (run ?es (init :: string hook)) = []"
    by (simp add: list_all_iff)
  from b n i 1 2 show ?thesis by blast
qed

section \<open>A timer firing on an empty ref\<close>

text \<open>
  Claim C9. While the ref is still empty, the wrapped function returns without calling
  anything, so a timer that fires then, alone or among the timers due when time passes,
  leaves the record of invocations and the record of uncaught exceptions unchanged.
\<close>

theorem unbound_fire_is_noop:
  "ref w = None \<Longrightarrow>
     func t w = (Returned, w)
     \<and> calls (timerExpired q w) = calls w \<and> uncaught (timerExpired q w) = uncaught w
     \<and> calls (advance n w) = calls w \<and> uncaught (advance n w) = uncaught w"
  by (simp add: func_def timerExpired_calls timerExpired_uncaught advance_calls advance_uncaught)

theorem unbound_fire_is_noop_witness:
  "ref (run [Render (Callback ''A'' True) (Some 0), Notify] init) = None
   \<and> dueTimers 0 (run [Render (Callback ''A'' True) (Some 0), Notify] init) = [(0, 0)]
   \<and> calls (advance 0 (run [Render (Callback ''A'' True) (Some 0), Notify] init)) = []
   \<and> uncaught (advance 0 (run [Render (Callback ''A'' True) (Some 0), Notify] init)) = []"
proof -
  let ?w = "run [Render (Callback ''A'' True) (Some 0), Notify] (init :: string hook)"
  have r: "ref ?w = None" by (simp add: model_defs)
  have d: "dueTimers 0 ?w = [(0, 0)]" by (simp add: model_defs)
  have c: "calls ?w = []" "uncaught ?w = []" by (simp_all add: model_defs)
  from unbound_fire_is_noop [OF r, of _ _ 0] c r d show ?thesis by simp
qed

section \<open>Facts about timers and quiet periods\<close>

lemma notifyTimes_ge: "x \<in> set (notifyTimes t evs) \<Longrightarrow> t \<le> x"
  by (induction t evs rule: notifyTimes.induct) auto

lemma step_Notify_now [simp]: "now (step Notify w) = now w"
  by (simp split: option.split)

lemma step_keeps_memo:
  assumes "memo w = Some (d, f)" "keepsDelay d e"
  shows "memo (step e w) = Some (d, f)"
  using assms by (cases e) (simp_all add: useDebounce_def useMemo_def)

lemma set_dueTimers: "set (dueTimers limit w) = {q \<in> set (timerQueue w). snd q \<le> limit}"
  by (simp add: dueTimers_def)

lemma advance_nothing_due:
  assumes "\<forall>q\<in>set (timerQueue w). now w + n < snd q"
  shows "timerQueue (advance n w) = timerQueue w" "calls (advance n w) = calls w"
proof -
  have "filter (\<lambda>q. snd q \<le> now w + n) (timerQueue w) = []"
    using assms by (auto simp: filter_empty_conv)
  then have "dueTimers (now w + n) w = []"
    by (simp add: dueTimers_def)
  then show "timerQueue (advance n w) = timerQueue w" "calls (advance n w) = calls w"
    by (simp_all add: advance_queue advance_calls split: option.split)
qed

lemma advance_single_due:
  assumes "timerQueue w = [(i, t)]" "t \<le> now w + n"
  shows "timerQueue (advance n w) = []"
    "calls (advance n w) = calls w @ (case ref w of None \<Rightarrow> [] | Some c \<Rightarrow> [(t, c)])"
    "uncaught (advance n w) =
       uncaught w @ (case ref w of None \<Rightarrow> [] | Some c \<Rightarrow> if throws c then [t] else [])"
proof -
  have "dueTimers (now w + n) w = [(i, t)]"
    using assms by (simp add: dueTimers_def)
  then show "timerQueue (advance n w) = []"
    "calls (advance n w) = calls w @ (case ref w of None \<Rightarrow> [] | Some c \<Rightarrow> [(t, c)])"
    "uncaught (advance n w) =
       uncaught w @ (case ref w of None \<Rightarrow> [] | Some c \<Rightarrow> if throws c then [t] else [])"
    using assms by (simp_all add: advance_queue advance_calls advance_uncaught split: option.split)
qed


text \<open>
  The invariant of a burst. \<open>pend\<close> holds the time of the notification whose timer is
  pending, if there is one. As long as no gap reaches the delay, nothing is invoked and the
  queue holds exactly the timer of the last notification.
\<close>

lemma quiet_run:
  assumes "memo w = Some (d, f)" "wait f = d" "\<forall>e\<in>set evs. keepsDelay d e"
    and "timerQueue w = map (\<lambda>t. (ident f, t + d)) pend" "length pend \<le> 1"
    and "successively (\<lambda>a b. b < a + d) (pend @ notifyTimes (now w) evs)"
    and "pend @ notifyTimes (now w) evs \<noteq> [] \<Longrightarrow>
           now w + duration evs < last (pend @ notifyTimes (now w) evs) + d"
  shows "calls (run evs w) = calls w \<and> memo (run evs w) = Some (d, f)
     \<and> now (run evs w) = now w + duration evs
     \<and> timerQueue (run evs w) =
         (if pend @ notifyTimes (now w) evs = [] then []
          else [(ident f, last (pend @ notifyTimes (now w) evs) + d)])"
  using assms
proof (induction evs arbitrary: w pend)
  case Nil
  then show ?case by (cases pend) auto
next
  case (Cons e evs)
  have keep: "\<forall>e\<in>set evs. keepsDelay d e" using Cons.prems(3) by simp
  have memo': "memo (step e w) = Some (d, f)"
    using step_keeps_memo [of w d f e] Cons.prems(1,3) by simp
  show ?case
  proof (cases e)
    case (Render c dopt)
    have "calls (run evs (step e w)) = calls (step e w) \<and> memo (run evs (step e w)) = Some (d, f)
     \<and> now (run evs (step e w)) = now (step e w) + duration evs
     \<and> timerQueue (run evs (step e w)) =
         (if pend @ notifyTimes (now (step e w)) evs = [] then []
          else [(ident f, last (pend @ notifyTimes (now (step e w)) evs) + d)])"
      using Cons.prems Render
      by (intro Cons.IH [OF memo' Cons.prems(2) keep]) simp_all
    then show ?thesis using Render by simp
  next
    case Effects
    have "calls (run evs (step e w)) = calls (step e w) \<and> memo (run evs (step e w)) = Some (d, f)
     \<and> now (run evs (step e w)) = now (step e w) + duration evs
     \<and> timerQueue (run evs (step e w)) =
         (if pend @ notifyTimes (now (step e w)) evs = [] then []
          else [(ident f, last (pend @ notifyTimes (now (step e w)) evs) + d)])"
      using Cons.prems Effects
      by (intro Cons.IH [OF memo' Cons.prems(2) keep]) simp_all
    then show ?thesis using Effects by simp
  next
    case Notify
    have q: "timerQueue (step e w) = map (\<lambda>t. (ident f, t + d)) [now w]"
      using Cons.prems(1,2,4) Notify by (simp add: debouncedCall_def)
    have s: "successively (\<lambda>a b. b < a + d) ([now w] @ notifyTimes (now (step e w)) evs)"
      using Cons.prems(6) Notify by (simp add: successively_append_iff del: step.simps)
    have l: "now (step e w) + duration evs < last ([now w] @ notifyTimes (now (step e w)) evs) + d"
      using Cons.prems(7) Notify by (simp del: step.simps)
    have "calls (run evs (step e w)) = calls (step e w) \<and> memo (run evs (step e w)) = Some (d, f)
     \<and> now (run evs (step e w)) = now (step e w) + duration evs
     \<and> timerQueue (run evs (step e w)) =
         (if [now w] @ notifyTimes (now (step e w)) evs = [] then []
          else [(ident f, last ([now w] @ notifyTimes (now (step e w)) evs) + d)])"
      by (intro Cons.IH [OF memo' Cons.prems(2) keep q _ s l]) simp_all
    then show ?thesis using Notify by (simp del: step.simps)
  next
    case (Advance n)
    let ?nts = "notifyTimes (now w + n) evs"
    have nodue: "\<forall>q\<in>set (timerQueue w). now w + n < snd q"
    proof (cases pend)
      case Nil
      then show ?thesis using Cons.prems(4) by simp
    next
      case (Cons t ts)
      then have pend: "pend = [t]" using Cons.prems(5) by simp
      have "now w + n < t + d"
      proof (cases ?nts)
        case Nil
        then show ?thesis using Cons.prems(7) pend Advance by simp
      next
        case (Cons t1 rest)
        then have "t1 < t + d" using Cons.prems(6) pend Advance by simp
        moreover have "now w + n \<le> t1"
          using notifyTimes_ge [of t1 "now w + n" evs] Cons by simp
        ultimately show ?thesis by simp
      qed
      then show ?thesis using Cons.prems(4) pend by simp
    qed
    have q: "timerQueue (step e w) = map (\<lambda>t. (ident f, t + d)) pend"
      and c: "calls (step e w) = calls w"
      using advance_nothing_due [OF nodue] Cons.prems(4) Advance by simp_all
    have "calls (run evs (step e w)) = calls (step e w) \<and> memo (run evs (step e w)) = Some (d, f)
     \<and> now (run evs (step e w)) = now (step e w) + duration evs
     \<and> timerQueue (run evs (step e w)) =
         (if pend @ notifyTimes (now (step e w)) evs = [] then []
          else [(ident f, last (pend @ notifyTimes (now (step e w)) evs) + d)])"
      using Cons.prems Advance
      by (intro Cons.IH [OF memo' Cons.prems(2) keep q]) (simp_all add: add.assoc)
    then show ?thesis using Advance c by (simp add: add.assoc)
  qed
qed

lemma quiet_burst:
  assumes "memo w = Some (d, f)" "wait f = d" "timerQueue w = []"
    and "\<forall>e\<in>set evs. keepsDelay d e"
    and "notifyTimes (now w) evs \<noteq> []"
    and "successively (\<lambda>a b. b < a + d) (notifyTimes (now w) evs)"
    and "now w + duration evs < last (notifyTimes (now w) evs) + d"
    and "last (notifyTimes (now w) evs) + d \<le> now w + duration evs + m"
    and "ref (run evs w) = Some c"
  shows "calls (run evs w) = calls w
     \<and> calls (run (evs @ [Advance m]) w) = calls w @ [(last (notifyTimes (now w) evs) + d, c)]
     \<and> timerQueue (run (evs @ [Advance m]) w) = []"
proof -
  let ?w = "run evs w" and ?t = "last (notifyTimes (now w) evs) + d"
  have q: "timerQueue w = map (\<lambda>t. (ident f, t + d)) []"
    using assms(3) by simp
  have inv: "calls ?w = calls w \<and> memo ?w = Some (d, f) \<and> now ?w = now w + duration evs
     \<and> timerQueue ?w =
         (if [] @ notifyTimes (now w) evs = [] then []
          else [(ident f, last ([] @ notifyTimes (now w) evs) + d)])"
    using assms(5-7) by (intro quiet_run [OF assms(1,2,4) q]) simp_all
  then have queue: "timerQueue ?w = [(ident f, ?t)]" and clock: "?t \<le> now ?w + m"
    using assms(5,8) by simp_all
  show ?thesis
    using advance_single_due(1,2) [OF queue clock] inv assms(9) by simp
qed

lemma notify_then_wait:
  assumes "memo w = Some (d, f)" "wait f = d" "timerQueue w = []" "d \<le> m"
  shows "timerQueue (run [Notify, Advance m] w) = []"
    "calls (run [Notify, Advance m] w) =
       calls w @ (case ref w of None \<Rightarrow> [] | Some c \<Rightarrow> [(now w + d, c)])"
    "uncaught (run [Notify, Advance m] w) =
       uncaught w @ (case ref w of None \<Rightarrow> [] | Some c \<Rightarrow> if throws c then [now w + d] else [])"
    "memo (run [Notify, Advance m] w) = Some (d, f)"
    "now (run [Notify, Advance m] w) = now w + m"
proof -
  let ?w = "step Notify w"
  have q: "timerQueue ?w = [(ident f, now w + d)]" and t: "now w + d \<le> now ?w + m"
    using assms by (simp_all add: debouncedCall_def)
  have same: "calls ?w = calls w" "uncaught ?w = uncaught w" "ref ?w = ref w"
    using assms(1) by simp_all
  show "timerQueue (run [Notify, Advance m] w) = []"
    "calls (run [Notify, Advance m] w) =
       calls w @ (case ref w of None \<Rightarrow> [] | Some c \<Rightarrow> [(now w + d, c)])"
    "uncaught (run [Notify, Advance m] w) =
       uncaught w @ (case ref w of None \<Rightarrow> [] | Some c \<Rightarrow> if throws c then [now w + d] else [])"
    using advance_single_due [OF q t] same by (simp_all del: step.simps(3))
  show "memo (run [Notify, Advance m] w) = Some (d, f)"
    "now (run [Notify, Advance m] w) = now w + m"
    using assms(1) by simp_all
qed

lemma run_binds_memo:
  assumes "memo w = Some (d, f)" "\<forall>e\<in>set bs. keepsDelay d e"
  shows "memo (run bs w) = Some (d, f)"
  using assms by (induction bs arbitrary: w) (simp_all add: step_keeps_memo del: step.simps)

section \<open>Reachable states\<close>

lemma wellFormed_init: "wellFormed init"
  by (simp add: wellFormed_def init_def)

lemma wellFormed_step: "wellFormed w \<Longrightarrow> wellFormed (step e w)"
proof (cases e)
  case (Render c dopt)
  assume "wellFormed w"
  then show ?thesis using Render
    by (auto simp: wellFormed_def useDebounce_def useMemo_def useEffect_def flushEffects_def
        debounce_def Let_def split: option.splits prod.splits if_splits)
next
  case Effects
  assume "wellFormed w"
  then show ?thesis using Effects
    by (auto simp: wellFormed_def flushEffects_def split: option.splits)
next
  case Notify
  assume "wellFormed w"
  then show ?thesis using Notify
    by (auto simp: wellFormed_def debouncedCall_def split: option.splits)
next
  case (Advance n)
  assume "wellFormed w"
  then show ?thesis using Advance
    by (auto simp: wellFormed_def advance_queue split: option.splits)
qed

lemma wellFormed_run: "wellFormed w \<Longrightarrow> wellFormed (run evs w)"
  by (induction evs arbitrary: w) (simp_all add: wellFormed_step)

lemma bind_result:
  assumes "wellFormed w"
  shows "ref (run (bind c dopt) w) = Some c"
    "\<exists>f. memo (run (bind c dopt) w) = Some (delayOf dopt, f) \<and> wait f = delayOf dopt"
    "timerQueue (run (bind c dopt) w) = timerQueue w"
    "calls (run (bind c dopt) w) = calls w"
    "now (run (bind c dopt) w) = now w"
proof -
  show "ref (run (bind c dopt) w) = Some c"
    using assms
    by (auto simp: bind_def wellFormed_def useDebounce_def useMemo_def useEffect_def
        flushEffects_def debounce_def Let_def split: option.splits prod.splits if_splits)
  show "\<exists>f. memo (run (bind c dopt) w) = Some (delayOf dopt, f) \<and> wait f = delayOf dopt"
    using assms
    by (auto simp: bind_def wellFormed_def useDebounce_def useMemo_def
        debounce_def Let_def split: option.splits prod.splits if_splits)
  show "timerQueue (run (bind c dopt) w) = timerQueue w"
    "calls (run (bind c dopt) w) = calls w" "now (run (bind c dopt) w) = now w"
    by (simp_all add: bind_def)
qed




section \<open>The default delay\<close>

lemma step_explicitDelay: "step (explicitDelay e) w = step e w"
  by (cases e rule: explicitDelay.cases) (simp_all add: useDebounce_def delayOf_def)

lemma made_for_delay:
  assumes "wellFormed w"
  shows "wait (fst (useDebounce callback dopt w)) = delayOf dopt"
proof -
  have "wellFormed (useEffect callback w)"
    using assms by (auto simp: wellFormed_def useEffect_def split: option.splits)
  then show ?thesis
    by (auto simp: useDebounce_def useMemo_def debounce_def wellFormed_def Let_def
        split: option.splits prod.splits)
qed

lemma notify_then_too_early:
  assumes "memo w = Some (d, f)" "wait f = d" "timerQueue w = []" "m < d"
  shows "calls (run [Notify, Advance m] w) = calls w"
proof -
  let ?w = "step Notify w"
  have q: "timerQueue ?w = [(ident f, now w + d)]" and n: "now ?w = now w"
    and c: "calls ?w = calls w"
    using assms by (simp_all add: debouncedCall_def)
  have "\<forall>q\<in>set (timerQueue ?w). now ?w + m < snd q"
    using q n assms(4) by (simp del: step.simps)
  from advance_nothing_due(2) [OF this] c show ?thesis
    by (simp del: step.simps(3))
qed

text \<open>
  Claim C8. When no delay is supplied, the quiet period is 1000 milliseconds. The hook called
  without a delay does what the hook called with the delay 1000 does, and a component that
  omits the delay in its renders goes through the same states as one that writes 1000. The
  omitted delay stands for 1000: the debounced function the hook returns then waits 1000,
  and after a bind without a delay and a notification, from a state with no pending timer,
  nothing is invoked while less than 1000 milliseconds have passed, and the bound callback
  is invoked at exactly 1000 milliseconds after the notification once they have.
\<close>

theorem default_delay:
  "useDebounce callback None w = useDebounce callback (Some 1000) w
   \<and> run (map explicitDelay evs) w = run evs w
   \<and> delayOf None = 1000
   \<and> (wellFormed w \<longrightarrow> wait (fst (useDebounce callback None w)) = 1000)
   \<and> (wellFormed w \<and> timerQueue w = [] \<and> m < 1000 \<longrightarrow>
        calls (run (bind callback None @ [Notify, Advance m]) w) = calls w)
   \<and> (wellFormed w \<and> timerQueue w = [] \<and> 1000 \<le> m \<longrightarrow>
        calls (run (bind callback None @ [Notify, Advance m]) w) =
          calls w @ [(now w + 1000, callback)])"
proof -
  have d: "delayOf None = 1000"
    by (simp add: delayOf_def)
  have 1: "useDebounce callback None w = useDebounce callback (Some 1000) w"
    by (simp add: useDebounce_def delayOf_def)
  have 2: "run (map explicitDelay evs) w = run evs w"
    by (induction evs arbitrary: w) (simp_all add: step_explicitDelay)
  have 3: "wait (fst (useDebounce callback None w)) = 1000" if "wellFormed w"
    using made_for_delay [OF that, of callback None] d by simp
  have 4: "calls (run (bind callback None @ [Notify, Advance m]) w) = calls w"
    if wf: "wellFormed w" and idle: "timerQueue w = []" and early: "m < 1000"
  proof -
    let ?w = "run (bind callback None) w"
    obtain f where "memo ?w = Some (1000, f)" "wait f = 1000"
      using bind_result(2) [OF wf, of callback None] d by auto
    moreover have "timerQueue ?w = []" "calls ?w = calls w"
      using bind_result(3,4) [OF wf, of callback None] idle by simp_all
    ultimately show ?thesis
      using notify_then_too_early [of ?w 1000 f m] early by simp
  qed
  have 5: "calls (run (bind callback None @ [Notify, Advance m]) w) =
          calls w @ [(now w + 1000, callback)]"
    if wf: "wellFormed w" and idle: "timerQueue w = []" and late: "1000 \<le> m"
  proof -
    let ?w = "run (bind callback None) w"
    obtain f where m: "memo ?w = Some (1000, f)" and wt: "wait f = 1000"
      using bind_result(2) [OF wf, of callback None] d by auto
    have q: "timerQueue ?w = []" and c: "calls ?w = calls w" and n: "now ?w = now w"
      and r: "ref ?w = Some callback"
      using bind_result [OF wf, of callback None] idle by simp_all
    show ?thesis
      using notify_then_wait(2) [OF m wt q late] c n r by simp
  qed
  from d 1 2 3 4 5 show ?thesis by blast
qed

theorem default_delay_witness:
  "wait (fst (useDebounce (Callback ''save'' False) None init)) = 1000
   \<and> calls (run (bind (Callback ''save'' False) None @ [Notify, Advance 999]) init) = []
   \<and> calls (run (bind (Callback ''save'' False) None @ [Notify, Advance 1000]) init)
       = [(1000, Callback ''save'' False)]"
proof -
  define c where "c = Callback ''save'' False"
  have i: "wellFormed (init :: string hook)" "timerQueue (init :: string hook) = []"
    "calls (init :: string hook) = []" "now (init :: string hook) = 0"
    by (simp_all add: wellFormed_def init_def)
  note T = default_delay [of c "init :: string hook"]
  from T [of "[]" 0, THEN conjunct2, THEN conjunct2, THEN conjunct2, THEN conjunct1] i
  have 1: "wait (fst (useDebounce c None (init :: string hook))) = 1000" by blast
  from T [of "[]" 999, THEN conjunct2, THEN conjunct2, THEN conjunct2, THEN conjunct2,
      THEN conjunct1] i
  have 2: "calls (run (bind c None @ [Notify, Advance 999]) (init :: string hook)) = []"
    by simp
  from T [of "[]" 1000, THEN conjunct2, THEN conjunct2, THEN conjunct2, THEN conjunct2,
      THEN conjunct2] i
  have 3: "calls (run (bind c None @ [Notify, Advance 1000]) (init :: string hook)) = [(1000, c)]"
    by simp
  from 1 2 3 show ?thesis unfolding c_def by blast
qed

section \<open>A burst of notifications\<close>

text \<open>
  Claim C1. The hook is mounted with delay \<open>d\<close> and no timer is pending. In an event
  sequence whose renders keep the delay, with at least one notification, each notification
  less than \<open>d\<close> after the one before it, and ending less than \<open>d\<close> after the last one,
  nothing is invoked; once the clock then reaches \<open>d\<close> after the last notification, the
  callback held by the ref has been invoked exactly once, at exactly that instant, and no
  timer is left.
\<close>

theorem burst_invokes_once:
  assumes "memo w = Some (d, f)" "wait f = d" "timerQueue w = []"
    and "\<forall>e\<in>set evs. keepsDelay d e"
    and "notifyTimes (now w) evs \<noteq> []"
    and "successively (\<lambda>a b. b < a + d) (notifyTimes (now w) evs)"
    and "now w + duration evs < last (notifyTimes (now w) evs) + d"
    and "last (notifyTimes (now w) evs) + d \<le> now w + duration evs + m"
    and "ref (run evs w) = Some c"
  shows "calls (run evs w) = calls w
     \<and> calls (run (evs @ [Advance m]) w) = calls w @ [(last (notifyTimes (now w) evs) + d, c)]
     \<and> timerQueue (run (evs @ [Advance m]) w) = []"
  using assms by (rule quiet_burst)

theorem burst_invokes_once_witness:
  "calls (run (bind (Callback ''title A'' False) None @ [Notify, Advance 200]
               @ bind (Callback ''title AB'' False) None @ [Notify, Advance 200]
               @ bind (Callback ''title ABC'' False) None @ [Notify, Advance 999]
               @ [Advance 1]) (run (bind (Callback ''title'' False) None) init))
     = [(1400, Callback ''title ABC'' False)]"
proof -
  let ?w = "run (bind (Callback ''title'' False) None) (init :: string hook)"
  let ?evs = "bind (Callback ''title A'' False) None @ [Notify, Advance 200]
               @ bind (Callback ''title AB'' False) None @ [Notify, Advance 200]
               @ bind (Callback ''title ABC'' False) None @ [Notify, Advance 999]"
  have w: "memo ?w = Some (1000, Debounced 0 1000)" "timerQueue ?w = []" "now ?w = 0"
    "calls ?w = []"
    by (simp_all add: model_defs)
  have nts: "notifyTimes 0 ?evs = [0, 200, 400]" "duration ?evs = 1399"
    by (simp_all add: bind_def)
  have keep: "\<forall>e\<in>set ?evs. keepsDelay 1000 e"
    by (simp add: bind_def delayOf_def)
  have r: "ref (run ?evs ?w) = Some (Callback ''title ABC'' False)"
    by (simp add: model_defs)
  from burst_invokes_once [of ?w 1000 "Debounced 0 1000" ?evs 1 "Callback ''title ABC'' False"]
    w nts keep r
  have "calls (run (?evs @ [Advance 1]) ?w) = [(1400, Callback ''title ABC'' False)]"
    by simp
  then show ?thesis by simp
qed

section \<open>Rebinding while a timer is pending\<close>

text \<open>
  Claim C2. After \<open>bind a\<close>, a notification, and \<open>bind b\<close> before the timer expires,
  with no further notification, the one invocation runs \<open>b\<close>, at the delay after the
  notification. In general a timer that expires invokes the callback the ref holds at that
  moment.
\<close>

theorem latest_binding_runs:
  assumes "wellFormed w" "timerQueue w = []"
    and "g < delayOf dopt" "delayOf dopt \<le> g + m"
  shows "calls (run (bind a dopt @ [Notify, Advance g] @ bind b dopt @ [Advance m]) w) =
           calls w @ [(now w + delayOf dopt, b)]
     \<and> calls (timerExpired q w') =
           calls w' @ (case ref w' of None \<Rightarrow> [] | Some c \<Rightarrow> [(snd q, c)])"
proof -
  let ?d = "delayOf dopt"
  let ?w1 = "run (bind a dopt) w"
  let ?evs = "[Notify, Advance g] @ bind b dopt"
  obtain f where memo1: "memo ?w1 = Some (?d, f)" and wait1: "wait f = ?d"
    using bind_result(2) [OF assms(1)] by blast
  have q1: "timerQueue ?w1 = []" and c1: "calls ?w1 = calls w" and n1: "now ?w1 = now w"
    using bind_result(3-5) [OF assms(1)] assms(2) by simp_all
  have keep: "\<forall>e\<in>set ?evs. keepsDelay ?d e"
    by (simp add: bind_def)
  have nts: "notifyTimes (now ?w1) ?evs = [now w]" and dur: "duration ?evs = g"
    using n1 by (simp_all add: bind_def)
  have "wellFormed (run ([Notify, Advance g]) ?w1)"
    by (intro wellFormed_run assms(1))
  then have "ref (run (bind b dopt) (run ([Notify, Advance g]) ?w1)) = Some b"
    by (rule bind_result(1))
  then have r: "ref (run ?evs ?w1) = Some b"
    by (simp only: run_append)
  from quiet_burst [OF memo1 wait1 q1 keep, of m b] nts dur n1 r assms(3,4) c1
  have "calls (run (?evs @ [Advance m]) ?w1) = calls w @ [(now w + ?d, b)]"
    by simp
  then show ?thesis by (simp add: timerExpired_calls)
qed

theorem latest_binding_runs_witness:
  "calls (run (bind (Callback ''A'' False) None @ [Notify, Advance 500]
               @ bind (Callback ''B'' False) None @ [Advance 1100]) init)
     = [(1000, Callback ''B'' False)]"
proof -
  have "wellFormed (init :: string hook)" "timerQueue (init :: string hook) = []"
    "calls (init :: string hook) = []" "now (init :: string hook) = 0"
    by (simp_all add: wellFormed_def init_def)
  with latest_binding_runs [of "init :: string hook" 500 None 1100 "Callback ''A'' False"
      "Callback ''B'' False", THEN conjunct1]
  show ?thesis by (simp add: delayOf_def)
qed

section \<open>A change of the delay\<close>

text \<open>
  Claim C4, as stated: a timer scheduled under the old delay never fires after the delay has
  changed. It does: the timer set at time 0 under the delay 1000 is still in the queue after
  the render with the delay 500 at time 400, and it fires at time 1000.
\<close>

theorem delay_change_counterexample:
  "timerQueue (run (bind (Callback ''A'' False) (Some 1000) @ [Notify, Advance 400]
                    @ bind (Callback ''A'' False) (Some 500)) init) = [(0, 1000)]
   \<and> calls (run (bind (Callback ''A'' False) (Some 1000) @ [Notify, Advance 400]
                 @ bind (Callback ''A'' False) (Some 500) @ [Advance 600]) init)
       = [(1000, Callback ''A'' False)]"
  by (simp add: model_defs)

text \<open>
  Claim C4, amended. A render with a different delay makes a fresh debounced function with
  no timer, and later notifications arm that one. The timers already pending are neither
  cancelled nor carried over: the queue is unchanged, and the timer of the old debounced
  function fires at its due time, invoking the callback bound then.
\<close>

theorem delay_change_keeps_timer:
  assumes "wellFormed w" "memo w = Some (d, f)" "delayOf dopt \<noteq> d"
  shows "memo (step (Render c dopt) w) = Some (delayOf dopt, Debounced (created w) (delayOf dopt))
     \<and> statusOf (Debounced (created w) (delayOf dopt)) (step (Render c dopt) w) = Idle
     \<and> timerQueue (step (Render c dopt) w) = timerQueue w
     \<and> calls (step (Render c dopt) w) = calls w
     \<and> timerQueue (run [Render c dopt, Notify] w) =
         timerQueue w @ [(created w, now w + delayOf dopt)]
     \<and> ((ident f, t) \<in> set (timerQueue w) \<and> t \<le> now w + n
          \<and> ref (step (Render c dopt) w) = Some a \<longrightarrow>
        (t, a) \<in> set (drop (length (calls w)) (calls (run [Render c dopt, Advance n] w))))"
proof -
  let ?w = "step (Render c dopt) w" and ?g = "Debounced (created w) (delayOf dopt)"
  have fresh: "\<forall>q\<in>set (timerQueue w). fst q \<noteq> created w"
    using assms(1) by (auto simp: wellFormed_def)
  have m: "memo ?w = Some (delayOf dopt, ?g)"
    using assms(2,3) by (simp add: useDebounce_def useMemo_def debounce_def)
  have q: "timerQueue ?w = timerQueue w" and c: "calls ?w = calls w" and n: "now ?w = now w"
    by simp_all
  have s: "statusOf ?g ?w = Idle"
    using fresh by (auto simp: statusOf_def)
  have "filter (\<lambda>q. fst q \<noteq> created w) (timerQueue w) = timerQueue w"
    using fresh by (simp add: filter_id_conv)
  then have r: "timerQueue (run [Render c dopt, Notify] w) =
         timerQueue w @ [(created w, now w + delayOf dopt)]"
    using m q n by (simp add: debouncedCall_def del: step.simps(1))
  have d: "dueTimers (now ?w + n) ?w = dueTimers (now w + n) w"
    by (simp add: dueTimers_def)
  have e: "(t, a) \<in> set (drop (length (calls w)) (calls (run [Render c dopt, Advance n] w)))"
    if "(ident f, t) \<in> set (timerQueue w)" "t \<le> now w + n" "ref ?w = Some a"
  proof -
    have "(ident f, t) \<in> set (dueTimers (now w + n) w)"
      using that(1,2) by (simp add: set_dueTimers)
    then have "(t, a) \<in> set (map (\<lambda>q. (snd q, a)) (dueTimers (now w + n) w))"
      by force
    then show ?thesis
      using that(3) d c by (simp add: advance_calls del: step.simps(1))
  qed
  from m s q c r e show ?thesis by blast
qed

theorem delay_change_keeps_timer_witness:
  "memo (step (Render (Callback ''A'' False) (Some 500))
           (run (bind (Callback ''A'' False) (Some 1000) @ [Notify, Advance 400]) init))
     = Some (500, Debounced 1 500)
   \<and> timerQueue (run [Render (Callback ''A'' False) (Some 500), Notify]
           (run (bind (Callback ''A'' False) (Some 1000) @ [Notify, Advance 400]) init))
     = [(0, 1000), (1, 900)]
   \<and> (1000, Callback ''A'' False) \<in> set (calls (run [Render (Callback ''A'' False) (Some 500), Advance 600]
           (run (bind (Callback ''A'' False) (Some 1000) @ [Notify, Advance 400]) init)))"
proof -
  define w where
    "w = run (bind (Callback ''A'' False) (Some 1000) @ [Notify, Advance 400]) (init :: string hook)"
  define c where "c = Callback ''A'' False"
  have wf: "wellFormed w"
    unfolding w_def by (intro wellFormed_run wellFormed_init)
  have v: "memo w = Some (1000, Debounced 0 1000)" "created w = 1" "now w = 400"
    "timerQueue w = [(0, 1000)]" "calls w = []" "ref (step (Render c (Some 500)) w) = Some c"
    by (simp_all add: w_def c_def model_defs)
  have d: "delayOf (Some 500) \<noteq> 1000" "delayOf (Some 500) = 500"
    by (simp_all add: delayOf_def)
  note T = delay_change_keeps_timer [OF wf v(1) d(1), of c 1000 600 c]
  from T v d have 1: "memo (step (Render c (Some 500)) w) = Some (500, Debounced 1 500)"
    by (simp del: step.simps run_Cons)
  from T v d have 2: "timerQueue (run [Render c (Some 500), Notify] w) = [(0, 1000), (1, 900)]"
    by (simp del: step.simps run_Cons)
  from T v d have "(1000, c) \<in> set (drop (length (calls w))
       (calls (run [Render c (Some 500), Advance 600] w)))"
    by (simp del: step.simps run_Cons)
  then have 3: "(1000, c) \<in> set (calls (run [Render c (Some 500), Advance 600] w))"
    by (rule in_set_dropD)
  from 1 2 3 show ?thesis unfolding w_def c_def by blast
qed

section \<open>Separate quiet periods\<close>

text \<open>
  Claim C5. Two notifications more than the delay apart, with any binds in between, give two
  invocations: the first at the delay after the first notification, the second at the delay
  after the second one, each of the callback bound when its timer expires.
\<close>

theorem separate_quiet_periods:
  assumes "memo w = Some (d, f)" "wait f = d" "timerQueue w = []"
    and "ref w = Some a"
    and "\<forall>e\<in>set bs. isBind e \<and> keepsDelay d e"
    and "ref (run ([Notify, Advance g] @ bs) w) = Some b"
    and "d < g" "d \<le> m"
  shows "calls (run ([Notify, Advance g] @ bs @ [Notify, Advance m]) w) =
           calls w @ [(now w + d, a), (now w + g + d, b)]"
proof -
  let ?w1 = "run [Notify, Advance g] w"
  let ?w2 = "run bs ?w1"
  have g: "d \<le> g" using assms(7) by simp
  note first = notify_then_wait [OF assms(1-3) g]
  have binds: "\<forall>e\<in>set bs. isBind e" and keeps: "\<forall>e\<in>set bs. keepsDelay d e"
    using assms(5) by simp_all
  have m2: "memo ?w2 = Some (d, f)"
    using run_binds_memo [OF first(4) keeps] .
  have q2: "timerQueue ?w2 = []" and c2: "calls ?w2 = calls w @ [(now w + d, a)]"
    and n2: "now ?w2 = now w + g"
    using run_binds [OF binds, of ?w1] first assms(4) by simp_all
  have r2: "ref ?w2 = Some b" using assms(6) by simp
  have "calls (run [Notify, Advance m] ?w2) = calls w @ [(now w + d, a), (now w + g + d, b)]"
    using notify_then_wait(2) [OF m2 assms(2) q2 assms(8)] c2 n2 r2 by simp
  then show ?thesis by simp
qed

theorem separate_quiet_periods_witness:
  "calls (run ([Notify, Advance 1100] @ bind (Callback ''Updated Title A'' False) None
                @ [Notify, Advance 1100])
            (run (bind (Callback ''Title A'' False) None) init))
     = [(1000, Callback ''Title A'' False), (2100, Callback ''Updated Title A'' False)]"
proof -
  let ?w = "run (bind (Callback ''Title A'' False) None) (init :: string hook)"
  let ?bs = "bind (Callback ''Updated Title A'' False) None :: string event list"
  have w: "memo ?w = Some (1000, Debounced 0 1000)" "timerQueue ?w = []" "now ?w = 0"
    "calls ?w = []" "ref ?w = Some (Callback ''Title A'' False)"
    by (simp_all add: model_defs)
  have bs: "\<forall>e\<in>set ?bs. isBind e \<and> keepsDelay 1000 e"
    by (simp add: bind_def delayOf_def)
  have r: "ref (run ([Notify, Advance 1100] @ ?bs) ?w) = Some (Callback ''Updated Title A'' False)"
    by (simp add: model_defs)
  from separate_quiet_periods [of ?w 1000 "Debounced 0 1000" "Callback ''Title A'' False" ?bs
      1100 "Callback ''Updated Title A'' False" 1100] w bs r
  show ?thesis by simp
qed

section \<open>The state machine of the scheduler\<close>




section \<open>Failing callbacks\<close>

lemma step_log:
  "\<exists>X. calls (step e w) = calls w @ X
     \<and> uncaught (step e w) = uncaught w @ map fst (filter (\<lambda>x. throws (snd x)) X)"
proof (cases e)
  case (Advance n)
  show ?thesis
  proof (cases "ref w")
    case None
    then show ?thesis using Advance by (simp add: advance_calls advance_uncaught)
  next
    case (Some c)
    then show ?thesis using Advance
      by (simp add: advance_calls advance_uncaught filter_map comp_def)
  qed
qed (simp_all split: option.split)

lemma run_log:
  "\<exists>X. calls (run evs w) = calls w @ X
     \<and> uncaught (run evs w) = uncaught w @ map fst (filter (\<lambda>x. throws (snd x)) X)"
proof (induction evs arbitrary: w)
  case Nil
  then show ?case by simp
next
  case (Cons e evs)
  obtain X where X: "calls (step e w) = calls w @ X"
    "uncaught (step e w) = uncaught w @ map fst (filter (\<lambda>x. throws (snd x)) X)"
    using step_log [of e w] by blast
  obtain Y where Y: "calls (run evs (step e w)) = calls (step e w) @ Y"
    "uncaught (run evs (step e w)) =
       uncaught (step e w) @ map fst (filter (\<lambda>x. throws (snd x)) Y)"
    using Cons.IH [of "step e w"] by blast
  have "calls (run (e # evs) w) = calls w @ (X @ Y)
     \<and> uncaught (run (e # evs) w) =
         uncaught w @ map fst (filter (\<lambda>x. throws (snd x)) (X @ Y))"
    using X Y by simp
  then show ?case by blast
qed

text \<open>
  Claim C7. When the bound callback throws at the expiry of the timer, the exception is
  recorded as uncaught and the scheduler goes on: the next notification arms a timer and its
  expiry invokes the callback bound then. Every uncaught exception of any event sequence is
  the exception of an invoked callback that throws; the hook and the scheduler add none.
\<close>

theorem failure_keeps_scheduler:
  assumes "memo w = Some (d, f)" "wait f = d" "timerQueue w = []"
    and "ref w = Some a" "throws a"
    and "\<forall>e\<in>set bs. isBind e \<and> keepsDelay d e"
    and "ref (run ([Notify, Advance m1] @ bs) w) = Some b"
    and "d \<le> m1" "d \<le> m2"
  shows "uncaught (run [Notify, Advance m1] w) = uncaught w @ [now w + d]
     \<and> statusOf f (run ([Notify, Advance m1] @ bs @ [Notify]) w) = Pending
     \<and> calls (run ([Notify, Advance m1] @ bs @ [Notify, Advance m2]) w) =
         calls w @ [(now w + d, a), (now w + m1 + d, b)]
     \<and> uncaught (run evs w) =
         uncaught w @ map fst (filter (\<lambda>x. throws (snd x))
                                 (drop (length (calls w)) (calls (run evs w))))"
proof -
  let ?w1 = "run [Notify, Advance m1] w"
  let ?w2 = "run bs ?w1"
  note first = notify_then_wait [OF assms(1-3,8)]
  have binds: "\<forall>e\<in>set bs. isBind e" and keeps: "\<forall>e\<in>set bs. keepsDelay d e"
    using assms(6) by simp_all
  have m2: "memo ?w2 = Some (d, f)"
    using run_binds_memo [OF first(4) keeps] .
  have q2: "timerQueue ?w2 = []" and c2: "calls ?w2 = calls w @ [(now w + d, a)]"
    and n2: "now ?w2 = now w + m1"
    using run_binds [OF binds, of ?w1] first assms(4) by simp_all
  have r2: "ref ?w2 = Some b" using assms(7) by simp
  have 1: "uncaught ?w1 = uncaught w @ [now w + d]"
    using first(3) assms(4,5) by simp
  have "statusOf f (step Notify ?w2) = Pending"
    using m2 by (simp add: statusOf_def debouncedCall_def)
  then have 2: "statusOf f (run ([Notify, Advance m1] @ bs @ [Notify]) w) = Pending"
    by (simp del: step.simps)
  have "calls (run [Notify, Advance m2] ?w2) = calls w @ [(now w + d, a), (now w + m1 + d, b)]"
    using notify_then_wait(2) [OF m2 assms(2) q2 assms(9)] c2 n2 r2 by simp
  then have 3: "calls (run ([Notify, Advance m1] @ bs @ [Notify, Advance m2]) w) =
         calls w @ [(now w + d, a), (now w + m1 + d, b)]"
    by simp
  obtain X where "calls (run evs w) = calls w @ X"
    "uncaught (run evs w) = uncaught w @ map fst (filter (\<lambda>x. throws (snd x)) X)"
    using run_log [of evs w] by blast
  then have 4: "uncaught (run evs w) =
         uncaught w @ map fst (filter (\<lambda>x. throws (snd x))
                                 (drop (length (calls w)) (calls (run evs w))))"
    by simp
  from 1 2 3 4 show ?thesis by blast
qed

theorem failure_keeps_scheduler_witness:
  "uncaught (run [Notify, Advance 1100] (run (bind (Callback ''save A'' True) None) init))
     = [1000]
   \<and> statusOf (Debounced 0 1000)
        (run ([Notify, Advance 1100] @ bind (Callback ''save B'' False) None @ [Notify])
           (run (bind (Callback ''save A'' True) None) init)) = Pending
   \<and> calls (run ([Notify, Advance 1100] @ bind (Callback ''save B'' False) None
                  @ [Notify, Advance 1000])
              (run (bind (Callback ''save A'' True) None) init))
       = [(1000, Callback ''save A'' True), (2100, Callback ''save B'' False)]
   \<and> uncaught (run ([Notify, Advance 1100] @ bind (Callback ''save B'' False) None
                     @ [Notify, Advance 1000])
                 (run (bind (Callback ''save A'' True) None) init)) = [1000]"
proof -
  let ?w = "run (bind (Callback ''save A'' True) None) (init :: string hook)"
  let ?bs = "bind (Callback ''save B'' False) None :: string event list"
  let ?evs = "[Notify, Advance 1100] @ ?bs @ [Notify, Advance 1000]"
  have w: "memo ?w = Some (1000, Debounced 0 1000)" "timerQueue ?w = []" "now ?w = 0"
    "calls ?w = []" "uncaught ?w = []" "ref ?w = Some (Callback ''save A'' True)"
    by (simp_all add: model_defs)
  have bs: "\<forall>e\<in>set ?bs. isBind e \<and> keepsDelay 1000 e"
    by (simp add: bind_def delayOf_def)
  have r: "ref (run ([Notify, Advance 1100] @ ?bs) ?w) = Some (Callback ''save B'' False)"
    by (simp add: model_defs)
  from failure_keeps_scheduler [of ?w 1000 "Debounced 0 1000" "Callback ''save A'' True" ?bs
      1100 "Callback ''save B'' False" 1000 ?evs] w bs r
  show ?thesis by simp
qed

section \<open>No invocation on the leading edge\<close>

lemma step_no_advance:
  "\<not> isAdvance e \<Longrightarrow> calls (step e w) = calls w"
  by (cases e) (simp_all split: option.split)

lemma run_no_advance:
  "\<forall>e\<in>set evs. \<not> isAdvance e \<Longrightarrow> calls (run evs w) = calls w"
  by (induction evs arbitrary: w) (simp_all add: step_no_advance del: step.simps)

lemma notifiedBefore_step:
  assumes "notifiedBefore k N w" "delayAtLeast k e"
  shows "notifiedBefore k (N \<union> set (notifyTimes (now w) [e])) (step e w)"
proof (cases e)
  case (Render c dopt)
  then show ?thesis using assms
    by (auto simp: notifiedBefore_def useDebounce_def useMemo_def debounce_def Let_def
        split: option.splits prod.splits if_splits)
next
  case Effects
  then show ?thesis using assms by (auto simp: notifiedBefore_def)
next
  case Notify
  then show ?thesis using assms
    by (auto simp: notifiedBefore_def debouncedCall_def split: option.splits)
next
  case (Advance n)
  have "\<exists>tn\<in>N. tn + k \<le> fst x" if mem: "x \<in> set (calls (advance n w))" for x
  proof (cases "x \<in> set (calls w)")
    case True
    then show ?thesis using assms(1) by (simp add: notifiedBefore_def)
  next
    case False
    then obtain q where "q \<in> set (dueTimers (now w + n) w)" "fst x = snd q"
      using mem by (auto simp: advance_calls split: option.splits)
    then have "q \<in> set (timerQueue w)" "fst x = snd q"
      by (simp_all add: set_dueTimers)
    then show ?thesis using assms(1) by (auto simp: notifiedBefore_def)
  qed
  moreover have "\<exists>tn\<in>N. tn + k \<le> snd q" if "q \<in> set (timerQueue (advance n w))" for q
    using that assms(1) by (auto simp: notifiedBefore_def advance_queue)
  moreover have "case memo (advance n w) of None \<Rightarrow> True | Some (d, f) \<Rightarrow> k \<le> wait f"
    using assms(1) by (simp add: notifiedBefore_def)
  ultimately show ?thesis using Advance by (simp add: notifiedBefore_def)
qed

lemma notifyTimes_Cons:
  "set (notifyTimes t (e # evs)) =
     set (notifyTimes t [e]) \<union> set (notifyTimes (now (step e w) - now w + t) evs)"
  by (cases e) (simp_all add: add.commute split: option.split)

lemma notifiedBefore_run:
  assumes "notifiedBefore k N w" "\<forall>e\<in>set evs. delayAtLeast k e"
  shows "notifiedBefore k (N \<union> set (notifyTimes (now w) evs)) (run evs w)"
  using assms
proof (induction evs arbitrary: w N)
  case Nil
  then show ?case by simp
next
  case (Cons e evs)
  let ?N = "N \<union> set (notifyTimes (now w) [e])"
  have "notifiedBefore k ?N (step e w)"
    using Cons.prems by (intro notifiedBefore_step) simp_all
  then have "notifiedBefore k (?N \<union> set (notifyTimes (now (step e w)) evs)) (run evs (step e w))"
    using Cons.prems(2) by (intro Cons.IH) simp_all
  moreover have "now (step e w) - now w + now w = now (step e w)"
    by (cases e) (simp_all split: option.split)
  then have "set (notifyTimes (now w) (e # evs)) =
      set (notifyTimes (now w) [e]) \<union> set (notifyTimes (now (step e w)) evs)"
    using notifyTimes_Cons [of "now w" e evs w] by simp
  ultimately show ?case by (simp add: Un_assoc del: step.simps notifyTimes.simps)
qed

text \<open>
  Claim C10. A notification invokes nothing: neither the call of the debounced function nor
  any sequence of events in which no time passes adds an invocation, so invocations happen
  only when a timer expires, in an event after the notification. On the clock, every
  invocation lies at least \<open>k\<close> after some notification when every delay is at least
  \<open>k\<close>: strictly after it as soon as the delays are positive.
\<close>

theorem no_leading_edge:
  "calls (debouncedCall f w) = calls w \<and> calls (step Notify w) = calls w
   \<and> ((\<forall>e\<in>set evs. \<not> isAdvance e) \<longrightarrow> calls (run evs w) = calls w)
   \<and> ((\<forall>e\<in>set evs'. delayAtLeast k e) \<longrightarrow>
        (\<forall>x\<in>set (calls (run evs' init)). \<exists>tn\<in>set (notifyTimes 0 evs'). tn + k \<le> fst x))"
proof -
  have 1: "calls (debouncedCall f w) = calls w \<and> calls (step Notify w) = calls w"
    by (simp split: option.split)
  have 2: "calls (run evs w) = calls w" if "\<forall>e\<in>set evs. \<not> isAdvance e"
    using that by (rule run_no_advance)
  have 3: "\<forall>x\<in>set (calls (run evs' init)). \<exists>tn\<in>set (notifyTimes 0 evs'). tn + k \<le> fst x"
    if "\<forall>e\<in>set evs'. delayAtLeast k e"
  proof -
    have "notifiedBefore k {} init"
      by (simp add: notifiedBefore_def init_def)
    from notifiedBefore_run [OF this that]
    show ?thesis by (simp add: notifiedBefore_def init_def)
  qed
  from 1 2 3 show ?thesis by blast
qed

theorem no_leading_edge_witness:
  "calls (run (bind (Callback ''A'' False) (Some 0) @ [Notify, Notify, Render (Callback ''B'' False) (Some 0), Notify])
            init) = []
   \<and> calls (run (bind (Callback ''A'' False) (Some 0) @ [Notify, Advance 0]) init)
       = [(0, Callback ''A'' False)]
   \<and> (\<exists>tn\<in>set (notifyTimes 0 (bind (Callback ''A'' False) None @ [Advance 7, Notify, Advance 5000])).
         tn + 1000 \<le> fst (hd (calls (run (bind (Callback ''A'' False) None
                                             @ [Advance 7, Notify, Advance 5000]) init))))"
proof -
  let ?es = "bind (Callback ''A'' False) (Some 0)
             @ [Notify, Notify, Render (Callback ''B'' False) (Some 0), Notify] :: string event list"
  let ?es' = "bind (Callback ''A'' False) None @ [Advance 7, Notify, Advance 5000] :: string event list"
  have n: "\<forall>e\<in>set ?es. \<not> isAdvance e" by (simp add: bind_def)
  have i: "calls (init :: string hook) = []" by (simp add: init_def)
  from no_leading_edge [of _ init ?es, THEN conjunct2, THEN conjunct2, THEN conjunct1] n i
  have 1: "calls (run ?es init) = []" by simp
  have 2: "calls (run (bind (Callback ''A'' False) (Some 0) @ [Notify, Advance 0]) (init :: string hook))
       = [(0, Callback ''A'' False)]"
    by (simp add: model_defs)
  have d: "\<forall>e\<in>set ?es'. delayAtLeast 1000 e" by (simp add: bind_def delayOf_def)
  have c: "calls (run ?es' init) = [(1007, Callback ''A'' False)]"
    by (simp add: model_defs)
  from no_leading_edge [of _ _ _ ?es' 1000, THEN conjunct2, THEN conjunct2, THEN conjunct2] d
  have "\<forall>x\<in>set (calls (run ?es' init)). \<exists>tn\<in>set (notifyTimes 0 ?es'). tn + 1000 \<le> fst x"
    by blast
  then have 3: "\<exists>tn\<in>set (notifyTimes 0 ?es'). tn + 1000 \<le> fst (hd (calls (run ?es' init)))"
    using c by simp
  from 1 2 3 show ?thesis by blast
qed

end
